theory Spec2Isabelle
  imports Complex_Main "HOL-Library.Multiset"
begin

unbundle bit_operations_syntax

section \<open>Python numbers as used by the curve code\<close>

text \<open>
  All inputs are Python integers (unbounded, modelled by \<open>int\<close>; \<open>//\<close> is floor
  division, \<open>&\<close> and \<open>^\<close> work on the infinite two's complement representation, as
  \<open>div\<close>, \<open>AND\<close> and \<open>XOR\<close> do on \<open>int\<close>).  The only expression that leaves the
  integers is \<open>2 ** e\<close>: for \<open>e < 0\<close> CPython converts both operands to a double and
  returns a float.  The conversion of \<open>e\<close> raises \<open>OverflowError\<close> once \<open>e\<close>
  rounds to a magnitude of \<open>2 ^ 1024\<close>, i.e. for \<open>e \<le> - (2 ^ 1024 - 2 ^ 970)\<close>;
  otherwise the result is the double nearest to \<open>2 ^ e\<close>, which is exact down to
  \<open>e = - 1074\<close> and \<open>0.0\<close> below.  A float is represented by its exact rational value.
\<close>

datatype error = OverflowError | TypeError

datatype pynum = PyInt int | PyFloat rat

definition float_limit :: int where
  "float_limit = 2 ^ 1024 - 2 ^ 970"

definition py_pow2 :: "int \<Rightarrow> error + pynum" where
  "py_pow2 e =
     (if 0 \<le> e then Inr (PyInt (2 ^ nat e))
      else if e \<le> - float_limit then Inl OverflowError
      else if e < - 1074 then Inr (PyFloat 0)
      else Inr (PyFloat (1 / 2 ^ nat (- e))))"

text \<open>\<open>s < n\<close> for an integer \<open>s\<close>: Python compares an int with a float exactly.\<close>

definition py_less :: "int \<Rightarrow> pynum \<Rightarrow> bool" where
  "py_less s n = (case n of PyInt m \<Rightarrow> s < m | PyFloat f \<Rightarrow> of_int s < f)"

text \<open>\<open>n // 2\<close>: floor division, which keeps the kind of number of \<open>n\<close>.\<close>

definition py_floordiv2 :: "pynum \<Rightarrow> pynum" where
  "py_floordiv2 n = (case n of PyInt m \<Rightarrow> PyInt (m div 2) | PyFloat f \<Rightarrow> PyFloat (of_int \<lfloor>f / 2\<rfloor>))"

text \<open>\<open>range(n)\<close> accepts integers only.\<close>

definition py_range :: "pynum \<Rightarrow> error + int list" where
  "py_range n = (case n of PyInt m \<Rightarrow> Inr (map int [0..<nat m]) | PyFloat f \<Rightarrow> Inl TypeError)"

section \<open>The static order-3 reference table\<close>

definition HILBERT_3 :: "int list list" where
  "HILBERT_3 =
    [[ 0,  3,  4,  5, 58, 59, 60, 63],
     [ 1,  2,  7,  6, 57, 56, 61, 62],
     [14, 13,  8,  9, 54, 55, 50, 49],
     [15, 12, 11, 10, 53, 52, 51, 48],
     [16, 17, 30, 31, 32, 33, 46, 47],
     [19, 18, 29, 28, 35, 34, 45, 44],
     [20, 23, 24, 27, 36, 39, 40, 43],
     [21, 22, 25, 26, 37, 38, 41, 42]]"

section \<open>The coordinate codec\<close>

text \<open>\<open>_hilbert_rotate(n, x, y, rx, ry)\<close>.\<close>

definition hilbert_rotate :: "int \<Rightarrow> int \<Rightarrow> int \<Rightarrow> int \<Rightarrow> int \<Rightarrow> int \<times> int" where
  "hilbert_rotate n x y rx ry =
     (if ry = 0 then
        (let (x1, y1) = (if rx = 1 then (n - 1 - x, n - 1 - y) else (x, y))
         in (y1, x1))
      else (x, y))"

text \<open>
  The body of the loop of \<open>hilbert_index_to_point\<close>: from the scale \<open>s\<close>, the point
  and the remaining index \<open>t\<close> to the new point.
\<close>

definition i2p_body :: "int \<Rightarrow> int \<times> int \<Rightarrow> int \<Rightarrow> int \<times> int" where
  "i2p_body s p t =
     (let rx = 1 AND (t div 2);
          ry = 1 AND (t XOR rx);
          (x, y) = hilbert_rotate s (fst p) (snd p) rx ry
      in (x + s * rx, y + s * ry))"

text \<open>
  \<open>while s < n: ...; t //= 4; s *= 2\<close>.  Nothing in the loop itself makes \<open>s\<close>
  positive, so the loop is a partial function: \<open>None\<close> is a run that never returns.
\<close>

partial_function (option) i2p_loop :: "pynum \<Rightarrow> int \<Rightarrow> int \<times> int \<Rightarrow> int \<Rightarrow> (int \<times> int) option" where
  "i2p_loop n s p t =
     (if py_less s n then i2p_loop n (s * 2) (i2p_body s p t) (t div 4) else Some p)"

declare i2p_loop.simps [code]

text \<open>
  \<open>hilbert_index_to_point(order, index)\<close>: \<open>None\<close> when the call does not return,
  \<open>Some (Inl e)\<close> when it raises \<open>e\<close>, \<open>Some (Inr (x, y))\<close> when it returns \<open>(x, y)\<close>.
\<close>

definition hilbert_index_to_point :: "int \<Rightarrow> int \<Rightarrow> (error + int \<times> int) option" where
  "hilbert_index_to_point order index =
     (case py_pow2 order of
        Inl e \<Rightarrow> Some (Inl e)
      | Inr n \<Rightarrow> map_option Inr (i2p_loop n 1 (0, 0) index))"

text \<open>
  The loop of \<open>point_to_hilbert_index\<close> for an integer scale:
  \<open>while s > 0: ...; s //= 2\<close>.
\<close>

function p2i_loop :: "int \<Rightarrow> int \<Rightarrow> int \<Rightarrow> int \<Rightarrow> int" where
  "p2i_loop s x y index =
     (if s > 0 then
        (let rx = (if (x AND s) > 0 then 1 else 0);
             ry = (if (y AND s) > 0 then 1 else 0);
             index1 = index + s * s * ((3 * rx) XOR ry);
             (x1, y1) = hilbert_rotate s x y rx ry
         in p2i_loop (s div 2) x1 y1 index1)
      else index)"
  by pat_completeness auto
termination
  by (relation "measure (\<lambda>(s, x, y, index). nat s)") auto

declare p2i_loop.simps [simp del]

text \<open>
  \<open>point_to_hilbert_index(x, y, order)\<close>.  For a negative order the scale
  \<open>s = n // 2\<close> is a float; were it positive, the first \<open>x & s\<close> would raise
  \<open>TypeError\<close>, otherwise the loop is skipped and the index \<open>0\<close> is returned.
\<close>

definition point_to_hilbert_index :: "int \<Rightarrow> int \<Rightarrow> int \<Rightarrow> error + int" where
  "point_to_hilbert_index x y order =
     (case py_pow2 order of
        Inl e \<Rightarrow> Inl e
      | Inr n \<Rightarrow>
          (case py_floordiv2 n of
             PyInt s \<Rightarrow> Inr (p2i_loop s x y 0)
           | PyFloat f \<Rightarrow> if f > 0 then Inl TypeError else Inr 0))"

section \<open>Enumeration, index matrix and grid inversion\<close>

text \<open>
  \<open>tuple(f(i) for i in ...)\<close>: the elements are computed from left to right, and the
  first call that raises (or does not return) ends the construction.
\<close>

fun tuple_of :: "(error + 'a) list \<Rightarrow> error + 'a list" where
  "tuple_of [] = Inr []"
| "tuple_of (r # rs) =
     (case r of
        Inl e \<Rightarrow> Inl e
      | Inr v \<Rightarrow> (case tuple_of rs of Inl e \<Rightarrow> Inl e | Inr vs \<Rightarrow> Inr (v # vs)))"

fun tuple_of_opt :: "(error + 'a) option list \<Rightarrow> (error + 'a list) option" where
  "tuple_of_opt [] = Some (Inr [])"
| "tuple_of_opt (r # rs) =
     (case r of
        None \<Rightarrow> None
      | Some (Inl e) \<Rightarrow> Some (Inl e)
      | Some (Inr v) \<Rightarrow>
          (case tuple_of_opt rs of
             None \<Rightarrow> None
           | Some (Inl e) \<Rightarrow> Some (Inl e)
           | Some (Inr vs) \<Rightarrow> Some (Inr (v # vs))))"

text \<open>\<open>generate_hilbert_points(order)\<close>.\<close>

definition generate_hilbert_points :: "int \<Rightarrow> (error + (int \<times> int) list) option" where
  "generate_hilbert_points order =
     (case py_pow2 (2 * order) of
        Inl e \<Rightarrow> Some (Inl e)
      | Inr num_points \<Rightarrow>
          (case py_range num_points of
             Inl e \<Rightarrow> Some (Inl e)
           | Inr idxs \<Rightarrow> tuple_of_opt (map (\<lambda>i. hilbert_index_to_point order i) idxs)))"

text \<open>
  \<open>hilbert_curve_to_coordinates(grid)\<close>: the dictionary comprehension stores the
  entries in the order of the two nested \<open>enumerate\<close> loops, a later entry replacing
  an earlier one with the same key.
\<close>

definition grid_entries :: "'a list list \<Rightarrow> ('a \<times> int \<times> int) list" where
  "grid_entries grid =
     concat (map (\<lambda>(x, row). map (\<lambda>(y, val). (val, (int x, int y))) (enumerate 0 row))
                 (enumerate 0 grid))"

definition hilbert_curve_to_coordinates :: "'a list list \<Rightarrow> ('a \<rightharpoonup> int \<times> int)" where
  "hilbert_curve_to_coordinates grid =
     foldl (\<lambda>d (val, pos). d(val \<mapsto> pos)) Map.empty (grid_entries grid)"

text \<open>\<open>hilbert_index_matrix(order)\<close>; the inner \<open>range(size)\<close> is evaluated for every row.\<close>

definition hilbert_index_matrix :: "int \<Rightarrow> error + int list list" where
  "hilbert_index_matrix order =
     (case py_pow2 order of
        Inl e \<Rightarrow> Inl e
      | Inr sz \<Rightarrow>
          (case py_range sz of
             Inl e \<Rightarrow> Inl e
           | Inr xs \<Rightarrow>
               tuple_of (map (\<lambda>x.
                   (case py_range sz of
                      Inl e \<Rightarrow> Inl e
                    | Inr ys \<Rightarrow> tuple_of (map (\<lambda>y. point_to_hilbert_index x y order) ys)))
                 xs)))"

section \<open>Compatibility functions\<close>

definition point_from_distance :: "int \<Rightarrow> int \<Rightarrow> (error + int \<times> int) option" where
  "point_from_distance order index = hilbert_index_to_point order index"

definition distance_from_point :: "int \<Rightarrow> int \<Rightarrow> int \<Rightarrow> error + int" where
  "distance_from_point order x y = point_to_hilbert_index x y order"

section \<open>Closed forms of the two loops\<close>

text \<open>
  The point reached by the loop of \<open>hilbert_index_to_point\<close> after \<open>k\<close> rounds on
  the index \<open>d\<close>, and the index accumulated by the loop of
  \<open>point_to_hilbert_index\<close> in its last \<open>k\<close> rounds; both are shown below to be
  what the loops compute.
\<close>

fun hpoint :: "nat \<Rightarrow> int \<Rightarrow> int \<times> int" where
  "hpoint 0 d = (0, 0)"
| "hpoint (Suc k) d = i2p_body (2 ^ k) (hpoint k d) (d div 4 ^ k)"

fun hindex :: "nat \<Rightarrow> int \<Rightarrow> int \<Rightarrow> int" where
  "hindex 0 x y = 0"
| "hindex (Suc k) x y =
     (let s = 2 ^ k;
          rx = (if (x AND s) > 0 then 1 else 0);
          ry = (if (y AND s) > 0 then 1 else 0);
          (x1, y1) = hilbert_rotate s x y rx ry
      in s * s * ((3 * rx) XOR ry) + hindex k x1 y1)"

text \<open>Distances between grid points.\<close>

definition manhattan :: "int \<times> int \<Rightarrow> int \<times> int \<Rightarrow> int" where
  "manhattan p q = \<bar>fst p - fst q\<bar> + \<bar>snd p - snd q\<bar>"

definition chebyshev :: "int \<times> int \<Rightarrow> int \<times> int \<Rightarrow> int" where
  "chebyshev p q = max \<bar>fst p - fst q\<bar> \<bar>snd p - snd q\<bar>"

text \<open>The order in which a row-major scan visits the positions of a grid.\<close>

definition scan_before :: "int \<times> int \<Rightarrow> int \<times> int \<Rightarrow> bool" where
  "scan_before p q \<longleftrightarrow> fst p < fst q \<or> (fst p = fst q \<and> snd p < snd q)"

section \<open>The loops compute their closed forms\<close>

lemma one_and_parity: "(1::int) AND a = (if even a then 0 else 1)"
  by (simp add: one_and_eq mod_2_eq_odd)

lemma i2p_body_digit:
  "i2p_body s (x, y) t =
     (if t mod 4 = 0 then (y, x)
      else if t mod 4 = 1 then (x, y + s)
      else if t mod 4 = 2 then (x + s, y + s)
      else (2 * s - 1 - y, s - 1 - x))"
proof -
  have q: "t mod 4 = 0 \<or> t mod 4 = 1 \<or> t mod 4 = 2 \<or> t mod 4 = 3"
    by presburger
  have e1: "even (t div 2) \<longleftrightarrow> t mod 4 = 0 \<or> t mod 4 = 1" by presburger
  have e2: "even t \<longleftrightarrow> t mod 4 = 0 \<or> t mod 4 = 2" by presburger
  show ?thesis
    using q unfolding i2p_body_def hilbert_rotate_def Let_def
    by (auto simp add: one_and_parity even_xor_iff e1 e2)
qed

lemma div_pow4_step: "d div 4 ^ k div 4 = d div (4::int) ^ Suc k"
proof -
  have "d div 4 ^ Suc k = d div (4 ^ k * 4)"
    by (simp add: mult.commute)
  also have "\<dots> = d div 4 ^ k div 4"
    by (rule zdiv_zmult2_eq) simp
  finally show ?thesis by simp
qed

lemma i2p_loop_run:
  "k \<le> n \<Longrightarrow> i2p_loop (PyInt (2 ^ n)) (2 ^ k) (hpoint k d) (d div 4 ^ k) = Some (hpoint n d)"
proof (induction "n - k" arbitrary: k)
  case 0
  then have "k = n" by simp
  then show ?case by (subst i2p_loop.simps) (simp add: py_less_def)
next
  case (Suc j)
  then have lt: "k < n" and j: "j = n - Suc k" by simp_all
  have less: "py_less (2 ^ k) (PyInt (2 ^ n))"
    using lt by (simp add: py_less_def)
  have t: "d div 4 ^ k div 4 = d div 4 ^ Suc k"
    by (rule div_pow4_step)
  have "i2p_loop (PyInt (2 ^ n)) (2 ^ k) (hpoint k d) (d div 4 ^ k)
        = i2p_loop (PyInt (2 ^ n)) (2 ^ Suc k) (hpoint (Suc k) d) (d div 4 ^ Suc k)"
    by (subst i2p_loop.simps) (simp add: less t mult.commute)
  also have "\<dots> = Some (hpoint n d)"
    using Suc.hyps(1)[OF j] lt by simp
  finally show ?case .
qed

lemma hilbert_index_to_point_eq:
  "0 \<le> order \<Longrightarrow> hilbert_index_to_point order index = Some (Inr (hpoint (nat order) index))"
  using i2p_loop_run[of 0 "nat order" index]
  by (simp add: hilbert_index_to_point_def py_pow2_def)

lemma i2p_body_mod4: "i2p_body s p (t mod 4) = i2p_body s p t"
  by (cases p) (simp only: i2p_body_digit mod_mod_trivial)

lemma digit_mod: "(d mod 4 ^ Suc k) div 4 ^ k mod 4 = d div 4 ^ k mod (4::int)"
proof -
  have p: "(4::int) ^ k = 2 ^ (2 * k)" "(4::int) ^ Suc k = 2 ^ (2 * k + 2)" "(4::int) = 2 ^ 2"
    by (simp_all add: power_mult)
  have "take_bit 2 (drop_bit (2 * k) (take_bit (2 * k + 2) d)) = take_bit 2 (drop_bit (2 * k) d)"
    by (simp add: drop_bit_take_bit)
  then show ?thesis
    unfolding take_bit_eq_mod drop_bit_eq_div p(1,2) by simp
qed

lemma hpoint_mod: "hpoint k (d mod 4 ^ k) = hpoint k d"
proof (induction k arbitrary: d)
  case 0
  show ?case by simp
next
  case (Suc k)
  have "hpoint k (d mod 4 ^ Suc k) = hpoint k ((d mod 4 ^ Suc k) mod 4 ^ k)"
    by (simp only: Suc.IH)
  also have "(d mod 4 ^ Suc k) mod 4 ^ k = d mod 4 ^ k"
    by (simp add: mod_mod_cancel)
  finally have a: "hpoint k (d mod 4 ^ Suc k) = hpoint k d"
    by (simp only: Suc.IH)
  have "hpoint (Suc k) (d mod 4 ^ Suc k)
        = i2p_body (2 ^ k) (hpoint k d) ((d mod 4 ^ Suc k) div 4 ^ k mod 4)"
    by (simp only: hpoint.simps a i2p_body_mod4)
  also have "\<dots> = hpoint (Suc k) d"
    by (simp only: digit_mod i2p_body_mod4 hpoint.simps)
  finally show ?case .
qed

lemma hpoint_range:
  "0 \<le> fst (hpoint k d) \<and> fst (hpoint k d) < 2 ^ k \<and> 0 \<le> snd (hpoint k d) \<and> snd (hpoint k d) < 2 ^ k"
proof (induction k)
  case 0
  show ?case by simp
next
  case (Suc k)
  obtain a b where ab: "hpoint k d = (a, b)" by (cases "hpoint k d")
  with Suc show ?case
    by (simp add: i2p_body_digit)
qed

lemma p2i_loop_run: "p2i_loop (2 ^ k div 2) x y index = index + hindex k x y"
proof (induction k arbitrary: x y index)
  case 0
  show ?case by (subst p2i_loop.simps) simp
next
  case (Suc k)
  have s: "(2::int) ^ Suc k div 2 = 2 ^ k" by simp
  show ?case
    unfolding s
    by (subst p2i_loop.simps) (simp add: Let_def Suc.IH split: prod.splits)
qed

lemma point_to_hilbert_index_eq:
  "0 \<le> order \<Longrightarrow> point_to_hilbert_index x y order = Inr (hindex (nat order) x y)"
  by (simp add: point_to_hilbert_index_def py_pow2_def py_floordiv2_def p2i_loop_run)

lemma and_pow2_pos: "(x AND 2 ^ k) > 0 \<longleftrightarrow> bit (x::int) k"
proof -
  have "0 \<le> x AND 2 ^ k" by simp
  moreover have "x AND 2 ^ k = 0 \<longleftrightarrow> \<not> bit x k"
    by (rule and_exp_eq_0_iff_not_bit)
  ultimately show ?thesis by linarith
qed

lemma hindex_Suc:
  "hindex (Suc k) x y =
     (if bit x k then
        (if bit y k then 2 * 4 ^ k + hindex k x y
         else 3 * 4 ^ k + hindex k (2 ^ k - 1 - y) (2 ^ k - 1 - x))
      else
        (if bit y k then 4 ^ k + hindex k x y else hindex k y x))"
proof -
  have sq: "(2::int) ^ k * 2 ^ k = 4 ^ k"
    by (simp add: power_mult_distrib[symmetric])
  show ?thesis
    by (simp add: Let_def and_pow2_pos hilbert_rotate_def sq)
qed

lemma take_bit_reflect: "take_bit k (2 ^ k - 1 - x) = 2 ^ k - 1 - take_bit k (x::int)"
proof -
  have "2 ^ k - 1 - x = (- x - 1) + 2 ^ k"
    by simp
  then have "(2 ^ k - 1 - x) mod 2 ^ k = (- x - 1) mod 2 ^ k"
    by (simp only: mod_add_self2)
  then have "take_bit k (2 ^ k - 1 - x) = take_bit k (NOT x)"
    by (simp add: not_int_def take_bit_eq_mod)
  also have "\<dots> = 2 ^ k - 1 - take_bit k x"
    by (simp add: take_bit_not_eq_mask_diff mask_eq_exp_minus_1)
  finally show ?thesis .
qed

lemma hindex_cong:
  "take_bit k x = take_bit k x' \<Longrightarrow> take_bit k y = take_bit k y' \<Longrightarrow> hindex k x y = hindex k x' y'"
proof (induction k arbitrary: x y x' y')
  case 0
  show ?case by simp
next
  case (Suc k)
  have bx: "bit x k = bit x' k"
    using Suc.prems(1) by (metis bit_take_bit_iff lessI)
  have by': "bit y k = bit y' k"
    using Suc.prems(2) by (metis bit_take_bit_iff lessI)
  have tx: "take_bit k x = take_bit k x'"
    using Suc.prems(1) by (metis take_bit_take_bit min.absorb1 le_SucI order_refl)
  have ty: "take_bit k y = take_bit k y'"
    using Suc.prems(2) by (metis take_bit_take_bit min.absorb1 le_SucI order_refl)
  have rx: "take_bit k (2 ^ k - 1 - x) = take_bit k (2 ^ k - 1 - x')"
    by (simp only: take_bit_reflect tx)
  have ry: "take_bit k (2 ^ k - 1 - y) = take_bit k (2 ^ k - 1 - y')"
    by (simp only: take_bit_reflect ty)
  show ?case
    unfolding hindex_Suc bx by'
    using Suc.IH[OF tx ty] Suc.IH[OF ty tx] Suc.IH[OF ry rx] by simp
qed

lemma hindex_range: "0 \<le> hindex k x y \<and> hindex k x y < 4 ^ k"
proof (induction k arbitrary: x y)
  case 0
  show ?case by simp
next
  case (Suc k)
  show ?case
    unfolding hindex_Suc
    using Suc.IH[of x y] Suc.IH[of y x] Suc.IH[of "2 ^ k - 1 - y" "2 ^ k - 1 - x"]
    by simp
qed

section \<open>The two maps are inverse to each other\<close>

lemma mod_pow4_Suc: "d mod 4 ^ Suc k = 4 ^ k * (d div 4 ^ k mod 4) + d mod (4::int) ^ k"
proof -
  have "d mod (4 ^ k * 4) = 4 ^ k * (d div 4 ^ k mod 4) + d mod 4 ^ k"
    by (rule zmod_zmult2_eq) simp
  then show ?thesis by (simp add: mult.commute)
qed

lemma not_bit_small: "0 \<le> a \<Longrightarrow> a < 2 ^ k \<Longrightarrow> \<not> bit (a::int) k"
  by (simp add: bit_iff_odd)

lemma bit_small_plus: "0 \<le> a \<Longrightarrow> a < 2 ^ k \<Longrightarrow> bit (a + 2 ^ k :: int) k"
  by (simp add: bit_iff_odd)

lemma bit_small_reflect: "0 \<le> b \<Longrightarrow> b < 2 ^ k \<Longrightarrow> bit (2 * 2 ^ k - 1 - b :: int) k"
proof -
  assume b: "0 \<le> b" "b < 2 ^ k"
  have eq: "2 * 2 ^ k - 1 - b = (2 ^ k - 1 - b) + 2 ^ k" by simp
  show ?thesis
    unfolding eq using b by (intro bit_small_plus) simp_all
qed

lemma mod4_cases: "(t::int) mod 4 = 0 \<or> t mod 4 = 1 \<or> t mod 4 = 2 \<or> t mod 4 = 3"
  by presburger

lemma take_bit_plus_pow: "take_bit k (a + 2 ^ k) = take_bit k (a::int)"
  by (simp add: take_bit_eq_mod)

lemma take_bit_minus_pow: "take_bit k (a - 2 ^ k) = take_bit k (a::int)"
  by (simp add: take_bit_eq_mod)

lemma hindex_hpoint: "hindex k (fst (hpoint k d)) (snd (hpoint k d)) = d mod 4 ^ k"
proof (induction k)
  case 0
  show ?case by simp
next
  case (Suc k)
  obtain a b where ab: "hpoint k d = (a, b)" by (cases "hpoint k d")
  from hpoint_range[of k d] ab have r: "0 \<le> a" "a < 2 ^ k" "0 \<le> b" "b < 2 ^ k"
    by simp_all
  from Suc ab have IH: "hindex k a b = d mod 4 ^ k" by simp
  let ?q = "d div 4 ^ k mod 4"
  have q: "?q = 0 \<or> ?q = 1 \<or> ?q = 2 \<or> ?q = 3" by (rule mod4_cases)
  have c1: "hindex k a (b + 2 ^ k) = hindex k a b"
    by (rule hindex_cong) (simp_all add: take_bit_plus_pow)
  have c2: "hindex k (a + 2 ^ k) (b + 2 ^ k) = hindex k a b"
    by (rule hindex_cong) (simp_all add: take_bit_plus_pow)
  have c3: "hindex k (2 ^ k - 1 - (2 ^ k - 1 - a)) (2 ^ k - 1 - (2 * 2 ^ k - 1 - b)) = hindex k a b"
  proof (rule hindex_cong)
    show "take_bit k (2 ^ k - 1 - (2 ^ k - 1 - a)) = take_bit k a" by simp
    have "2 ^ k - 1 - (2 * 2 ^ k - 1 - b) = b - 2 ^ k" by simp
    then show "take_bit k (2 ^ k - 1 - (2 * 2 ^ k - 1 - b)) = take_bit k b"
      by (simp only: take_bit_minus_pow)
  qed
  have b0: "\<not> bit a k" "\<not> bit b k" "bit (a + 2 ^ k) k" "bit (b + 2 ^ k) k"
    "bit (2 * 2 ^ k - 1 - b) k" "\<not> bit (2 ^ k - 1 - a) k"
    using r by (simp_all add: not_bit_small bit_small_plus bit_small_reflect)
  from q show ?case
  proof (elim disjE)
    assume q0: "?q = 0"
    then have hp: "hpoint (Suc k) d = (b, a)"
      by (simp add: ab i2p_body_digit)
    show ?thesis
      unfolding hp mod_pow4_Suc fst_conv snd_conv hindex_Suc
      using IH q0 by (simp add: b0)
  next
    assume q1: "?q = 1"
    then have hp: "hpoint (Suc k) d = (a, b + 2 ^ k)"
      by (simp add: ab i2p_body_digit)
    show ?thesis
      unfolding hp mod_pow4_Suc fst_conv snd_conv hindex_Suc
      using IH q1 by (simp add: b0 c1)
  next
    assume q2: "?q = 2"
    then have hp: "hpoint (Suc k) d = (a + 2 ^ k, b + 2 ^ k)"
      by (simp add: ab i2p_body_digit)
    show ?thesis
      unfolding hp mod_pow4_Suc fst_conv snd_conv hindex_Suc
      using IH q2 by (simp add: b0 c2)
  next
    assume q3: "?q = 3"
    then have hp: "hpoint (Suc k) d = (2 * 2 ^ k - 1 - b, 2 ^ k - 1 - a)"
      by (simp add: ab i2p_body_digit)
    show ?thesis
      unfolding hp mod_pow4_Suc fst_conv snd_conv hindex_Suc
      using IH q3 c3 by (simp add: b0)
  qed
qed

lemma hpoint_digit_rest:
  assumes r: "0 \<le> r" "r < 4 ^ k" and q: "0 \<le> q" "q < 4"
  shows "hpoint (Suc k) (q * 4 ^ k + r) = i2p_body (2 ^ k) (hpoint k r) q"
proof -
  have dv: "(q * 4 ^ k + r) div 4 ^ k = q"
    using r by simp
  have md: "(q * 4 ^ k + r) mod 4 ^ k = r"
    using r by simp
  have "hpoint k (q * 4 ^ k + r) = hpoint k ((q * 4 ^ k + r) mod 4 ^ k)"
    by (simp only: hpoint_mod)
  then show ?thesis
    by (simp only: hpoint.simps dv md)
qed

lemma hpoint_hindex: "hpoint k (hindex k x y) = (take_bit k x, take_bit k y)"
proof (induction k arbitrary: x y)
  case 0
  show ?case by simp
next
  case (Suc k)
  note rg = hindex_range[of k]
  show ?case
  proof (cases "bit x k")
    case bx: True
    show ?thesis
    proof (cases "bit y k")
      case by': True
      have "hpoint (Suc k) (2 * 4 ^ k + hindex k x y) = i2p_body (2 ^ k) (hpoint k (hindex k x y)) 2"
        using rg[of x y] by (intro hpoint_digit_rest) simp_all
      then show ?thesis
        unfolding hindex_Suc
        by (simp add: bx by' Suc.IH i2p_body_digit take_bit_Suc_from_most del: hpoint.simps)
    next
      case by': False
      have "hpoint (Suc k) (3 * 4 ^ k + hindex k (2 ^ k - 1 - y) (2 ^ k - 1 - x))
            = i2p_body (2 ^ k) (hpoint k (hindex k (2 ^ k - 1 - y) (2 ^ k - 1 - x))) 3"
        using rg[of "2 ^ k - 1 - y" "2 ^ k - 1 - x"] by (intro hpoint_digit_rest) simp_all
      then show ?thesis
        unfolding hindex_Suc
        by (simp add: bx by' Suc.IH i2p_body_digit take_bit_Suc_from_most take_bit_reflect del: hpoint.simps)
    qed
  next
    case bx: False
    show ?thesis
    proof (cases "bit y k")
      case by': True
      have "hpoint (Suc k) (1 * 4 ^ k + hindex k x y) = i2p_body (2 ^ k) (hpoint k (hindex k x y)) 1"
        using rg[of x y] by (intro hpoint_digit_rest) simp_all
      then show ?thesis
        unfolding hindex_Suc
        by (simp add: bx by' Suc.IH i2p_body_digit take_bit_Suc_from_most del: hpoint.simps)
    next
      case by': False
      have "hpoint (Suc k) (0 * 4 ^ k + hindex k y x) = i2p_body (2 ^ k) (hpoint k (hindex k y x)) 0"
        using rg[of y x] by (intro hpoint_digit_rest) simp_all
      then show ?thesis
        unfolding hindex_Suc
        by (simp add: bx by' Suc.IH i2p_body_digit take_bit_Suc_from_most del: hpoint.simps)
    qed
  qed
qed

section \<open>Consecutive points are neighbours\<close>

lemma hpoint_first: "hpoint k 0 = (0, 0)"
  by (induction k) (simp_all add: i2p_body_digit)

lemma hpoint_last: "hpoint k (4 ^ k - 1) = (2 ^ k - 1, 0)"
proof (induction k)
  case 0
  show ?case by simp
next
  case (Suc k)
  have "(4::int) ^ Suc k - 1 = 3 * 4 ^ k + (4 ^ k - 1)" by simp
  moreover have "hpoint (Suc k) (3 * 4 ^ k + (4 ^ k - 1)) = i2p_body (2 ^ k) (hpoint k (4 ^ k - 1)) 3"
    by (intro hpoint_digit_rest) simp_all
  ultimately show ?case
    by (simp only: Suc.IH i2p_body_digit) simp
qed

lemma i2p_body_isometry:
  "manhattan (i2p_body s p t) (i2p_body s p' t) = manhattan p p'"
  by (cases p; cases p') (auto simp add: i2p_body_digit manhattan_def)

lemma hpoint_adjacent:
  "0 \<le> d \<Longrightarrow> d + 1 < 4 ^ k \<Longrightarrow> manhattan (hpoint k d) (hpoint k (d + 1)) = 1"
proof (induction k arbitrary: d)
  case 0
  then show ?case by simp
next
  case (Suc k)
  define q where "q = d div 4 ^ k"
  define r where "r = d mod 4 ^ k"
  have d: "d = q * 4 ^ k + r" unfolding q_def r_def by (rule div_mult_mod_eq[symmetric])
  have r: "0 \<le> r" "r < 4 ^ k" by (simp_all add: r_def)
  have q0: "0 \<le> q" using Suc.prems(1) by (simp add: q_def pos_imp_zdiv_nonneg_iff)
  have q4: "q < 4"
  proof -
    have "d < 4 * 4 ^ k" using Suc.prems(2) by simp
    with d r(1) have "q * 4 ^ k < 4 * 4 ^ k" by linarith
    then show ?thesis by simp
  qed
  have hd: "hpoint (Suc k) d = i2p_body (2 ^ k) (hpoint k r) q"
    unfolding d using r q0 q4 by (intro hpoint_digit_rest)
  show ?case
  proof (cases "r + 1 < 4 ^ k")
    case True
    have "d + 1 = q * 4 ^ k + (r + 1)" by (simp add: d)
    moreover have "hpoint (Suc k) (q * 4 ^ k + (r + 1)) = i2p_body (2 ^ k) (hpoint k (r + 1)) q"
      using r True q0 q4 by (intro hpoint_digit_rest) simp_all
    ultimately have "hpoint (Suc k) (d + 1) = i2p_body (2 ^ k) (hpoint k (r + 1)) q"
      by (simp only:)
    then show ?thesis
      using Suc.IH[OF r(1) True] by (simp only: hd i2p_body_isometry)
  next
    case False
    with r have re: "r = 4 ^ k - 1" by simp
    have q3: "q < 3"
    proof (rule ccontr)
      assume "\<not> q < 3"
      with q4 have "q = 3" by simp
      with Suc.prems(2) show False by (simp add: d re)
    qed
    have "d + 1 = (q + 1) * 4 ^ k + 0" by (simp add: d re algebra_simps)
    moreover have "hpoint (Suc k) ((q + 1) * 4 ^ k + 0) = i2p_body (2 ^ k) (hpoint k 0) (q + 1)"
      using q0 q3 by (intro hpoint_digit_rest) simp_all
    ultimately have hd1: "hpoint (Suc k) (d + 1) = i2p_body (2 ^ k) (0, 0) (q + 1)"
      by (simp only: hpoint_first)
    have hd0: "hpoint (Suc k) d = i2p_body (2 ^ k) (2 ^ k - 1, 0) q"
      by (simp only: hd re hpoint_last)
    from q0 q3 have "q = 0 \<or> q = 1 \<or> q = 2" by arith
    then show ?thesis
      unfolding hd0 hd1 by (elim disjE) (simp_all add: i2p_body_digit manhattan_def)
  qed
qed

section \<open>Round trip and periodicity\<close>

lemma take_bit_id_range: "0 \<le> x \<Longrightarrow> x < 2 ^ k \<Longrightarrow> take_bit k (x::int) = x"
  by (simp add: take_bit_eq_mod)

text \<open>
  C1: for every order \<open>\<ge> 0\<close>, every index in \<open>[0, 4^order)\<close> is returned by
  \<open>point_to_hilbert_index\<close> applied to the point that \<open>hilbert_index_to_point\<close>
  gives for it, and every point \<open>(x, y)\<close> with \<open>x, y\<close> in \<open>[0, 2^order)\<close> is
  returned by \<open>hilbert_index_to_point\<close> applied to the index that
  \<open>point_to_hilbert_index\<close> gives for it.  Both calls return normally.
\<close>

theorem roundtrip_inverse:
  assumes "0 \<le> order"
  shows "(0 \<le> index \<and> index < 4 ^ nat order \<longrightarrow>
           (\<exists>px py. hilbert_index_to_point order index = Some (Inr (px, py)) \<and>
                    point_to_hilbert_index px py order = Inr index))
       \<and> (0 \<le> x \<and> x < 2 ^ nat order \<and> 0 \<le> y \<and> y < 2 ^ nat order \<longrightarrow>
           (\<exists>i. point_to_hilbert_index x y order = Inr i \<and>
                hilbert_index_to_point order i = Some (Inr (x, y))))"
proof (intro conjI impI)
  assume idx: "0 \<le> index \<and> index < 4 ^ nat order"
  obtain px py where p: "hpoint (nat order) index = (px, py)"
    by (cases "hpoint (nat order) index")
  have "hindex (nat order) px py = index mod 4 ^ nat order"
    using hindex_hpoint[of "nat order" index] p by simp
  also have "\<dots> = index" using idx by simp
  finally show "\<exists>px py. hilbert_index_to_point order index = Some (Inr (px, py)) \<and>
                    point_to_hilbert_index px py order = Inr index"
    using assms p by (simp add: hilbert_index_to_point_eq point_to_hilbert_index_eq)
next
  assume xy: "0 \<le> x \<and> x < 2 ^ nat order \<and> 0 \<le> y \<and> y < 2 ^ nat order"
  then have "hpoint (nat order) (hindex (nat order) x y) = (x, y)"
    by (simp add: hpoint_hindex take_bit_id_range)
  then show "\<exists>i. point_to_hilbert_index x y order = Inr i \<and>
                hilbert_index_to_point order i = Some (Inr (x, y))"
    using assms by (simp add: hilbert_index_to_point_eq point_to_hilbert_index_eq)
qed

theorem roundtrip_inverse_witness:
  "(0::int) \<le> 2 \<and> (0::int) \<le> 7 \<and> (7::int) < 4 ^ nat 2
   \<and> (\<exists>px py. hilbert_index_to_point 2 7 = Some (Inr (px, py)) \<and>
                point_to_hilbert_index px py 2 = Inr 7)
   \<and> (0::int) \<le> 3 \<and> (3::int) < 2 ^ nat 2 \<and> (0::int) \<le> 1 \<and> (1::int) < 2 ^ nat 2
   \<and> (\<exists>i. point_to_hilbert_index 3 1 2 = Inr i \<and>
            hilbert_index_to_point 2 i = Some (Inr (3, 1)))"
  using roundtrip_inverse [of 2 7 3 1] by simp

text \<open>
  C10: for every order \<open>\<ge> 0\<close> and every index \<open>\<ge> 0\<close>, also one that is
  \<open>4^order\<close> or more, \<open>hilbert_index_to_point\<close> returns the same point for the
  index and for the index reduced modulo \<open>4^order\<close>.
\<close>

theorem index_periodic:
  assumes "0 \<le> order" and "0 \<le> index"
  shows "\<exists>p. hilbert_index_to_point order index = Some (Inr p) \<and>
             hilbert_index_to_point order (index mod 4 ^ nat order) = Some (Inr p)"
  using assms by (simp add: hilbert_index_to_point_eq hpoint_mod)

theorem index_periodic_witness:
  "(0::int) \<le> 2 \<and> (0::int) \<le> 39 \<and>
   (\<exists>p. hilbert_index_to_point 2 39 = Some (Inr p) \<and>
        hilbert_index_to_point 2 (39 mod 4 ^ nat 2) = Some (Inr p))"
  using index_periodic [of 2 39] by simp

section \<open>Inputs outside the documented range\<close>

lemma py_pow2_negative:
  assumes "order < 0" and "- float_limit < order"
  shows "\<exists>f. py_pow2 order = Inr (PyFloat f) \<and> 0 \<le> f \<and> f \<le> 1 / 2"
proof (cases "order < - 1074")
  case True
  with assms show ?thesis by (simp add: py_pow2_def)
next
  case False
  from assms(1) obtain j where j: "nat (- order) = Suc j"
    by (cases "nat (- order)") simp_all
  have "(1::rat) \<le> 2 ^ j" by simp
  then have "1 / (2 * 2 ^ j) \<le> 1 / (2::rat)"
    by (simp add: field_simps)
  with False assms j show ?thesis by (simp add: py_pow2_def)
qed

lemma negative_order_results:
  assumes "order < 0" and "- float_limit < order"
  shows "hilbert_index_to_point order index = Some (Inr (0, 0))"
    and "point_to_hilbert_index x y order = Inr 0"
proof -
  from py_pow2_negative[OF assms] obtain f
    where f: "py_pow2 order = Inr (PyFloat f)" "0 \<le> f" "f \<le> 1 / 2" by blast
  have "\<not> py_less 1 (PyFloat f)"
    using f(3) by (simp add: py_less_def)
  then have "i2p_loop (PyFloat f) 1 (0, 0) index = Some (0, 0)"
    by (subst i2p_loop.simps) simp
  then show "hilbert_index_to_point order index = Some (Inr (0, 0))"
    by (simp add: hilbert_index_to_point_def f(1))
  have "\<lfloor>f / 2\<rfloor> = 0"
    using f(2,3) by (simp add: floor_eq_iff)
  then show "point_to_hilbert_index x y order = Inr 0"
    by (simp add: point_to_hilbert_index_def f(1) py_floordiv2_def)
qed

text \<open>
  C8, as amended: for every out-of-range input, that is a negative order above
  \<open>- (2^1024 - 2^970)\<close>, an index of \<open>4^order\<close> or more, or a coordinate of
  \<open>2^order\<close> or more, \<open>hilbert_index_to_point\<close> returns a pair of integers and
  \<open>point_to_hilbert_index\<close> returns an integer; neither raises, and neither checks
  its arguments.
\<close>

theorem out_of_range_returns:
  "((- float_limit < order \<and> order < 0) \<or> (0 \<le> order \<and> 4 ^ nat order \<le> index)
      \<longrightarrow> (\<exists>px py. hilbert_index_to_point order index = Some (Inr (px, py))))
   \<and> ((- float_limit < order \<and> order < 0) \<or> (0 \<le> order \<and> (2 ^ nat order \<le> x \<or> 2 ^ nat order \<le> y))
      \<longrightarrow> (\<exists>i. point_to_hilbert_index x y order = Inr i))"
proof (cases "0 \<le> order")
  case True
  then show ?thesis
    by (cases "hpoint (nat order) index")
       (simp add: hilbert_index_to_point_eq point_to_hilbert_index_eq)
next
  case False
  then have neg: "order < 0" by simp
  show ?thesis
  proof (cases "- float_limit < order")
    case True
    from negative_order_results[OF neg True] show ?thesis by simp
  next
    case False
    with neg show ?thesis by simp
  qed
qed

theorem out_of_range_returns_witness:
  "((- float_limit < - 3 \<and> (- 3 :: int) < 0)
      \<and> (\<exists>px py. hilbert_index_to_point (- 3) 100 = Some (Inr (px, py)))
      \<and> (\<exists>i. point_to_hilbert_index 9 4 (- 3) = Inr i))
   \<and> (((0::int) \<le> 2 \<and> (4::int) ^ nat 2 \<le> 39)
      \<and> (\<exists>px py. hilbert_index_to_point 2 39 = Some (Inr (px, py))))
   \<and> (((0::int) \<le> 2 \<and> (2::int) ^ nat 2 \<le> 5)
      \<and> (\<exists>i. point_to_hilbert_index 5 1 2 = Inr i))"
  using out_of_range_returns [of "- 3" 100 9 4] out_of_range_returns [of 2 39 5 1]
  by (simp add: float_limit_def)

text \<open>
  The bound on a negative order is needed: at the order \<open>- (2^1024)\<close> the power
  \<open>2 ** order\<close> cannot be computed, and both functions raise \<open>OverflowError\<close>.
\<close>

theorem huge_negative_order_raises:
  "hilbert_index_to_point (- (2 ^ 1024)) 0 = Some (Inl OverflowError)
   \<and> point_to_hilbert_index 0 0 (- (2 ^ 1024)) = Inl OverflowError"
  by (simp add: hilbert_index_to_point_def point_to_hilbert_index_def py_pow2_def float_limit_def)

section \<open>The compatibility functions\<close>

text \<open>
  C5, as amended: \<open>point_from_distance\<close> takes \<open>(order, index)\<close> and
  \<open>distance_from_point\<close> takes \<open>(order, x, y)\<close>; each returns exactly what the
  function it stands for returns on the same order, index, \<open>x\<close> and \<open>y\<close>.
\<close>

theorem aliases_agree:
  "point_from_distance order index = hilbert_index_to_point order index
   \<and> distance_from_point order x y = point_to_hilbert_index x y order"
  by (simp add: point_from_distance_def distance_from_point_def)

text \<open>
  Called with its arguments in the order \<open>(x, y, order)\<close>, the alias reads the first
  as the order and the other two as the point: for \<open>x = 3\<close>, \<open>y = 0\<close> at order 2 it
  computes the index of the point \<open>(0, 2)\<close> at order 3, which is 14, where
  \<open>point_to_hilbert_index\<close> returns 15.
\<close>

theorem alias_argument_order_differs:
  "distance_from_point 3 0 2 = Inr 14 \<and> point_to_hilbert_index 3 0 2 = Inr 15"
  by code_simp

section \<open>The enumeration of the curve\<close>

lemma tuple_of_opt_map: "tuple_of_opt (map (\<lambda>i. Some (Inr (f i))) xs) = Some (Inr (map f xs))"
  by (induction xs) simp_all

lemma nat_pow2_double: "0 \<le> order \<Longrightarrow> nat ((2::int) ^ nat (2 * order)) = 4 ^ nat order"
proof -
  assume "0 \<le> order"
  then have "nat (2 * order) = 2 * nat order" by simp
  then have "(2::int) ^ nat (2 * order) = 4 ^ nat order"
    by (simp add: power_mult)
  then show ?thesis by (simp add: nat_power_eq)
qed

lemma generate_hilbert_points_eq:
  assumes "0 \<le> order"
  shows "generate_hilbert_points order =
         Some (Inr (map (\<lambda>i. hpoint (nat order) (int i)) [0..<4 ^ nat order]))"
proof -
  have "map (\<lambda>i. hilbert_index_to_point order i) (map int [0..<4 ^ nat order])
        = map (\<lambda>i. Some (Inr (hpoint (nat order) (int i)))) [0..<4 ^ nat order]"
    using assms by (simp add: hilbert_index_to_point_eq)
  then show ?thesis
    using assms
    by (simp add: generate_hilbert_points_def py_pow2_def py_range_def nat_pow2_double
        tuple_of_opt_map del: map_map)
qed

lemma hpoint_inj: "inj_on (\<lambda>i. hpoint k (int i)) {0..<4 ^ k}"
proof (rule inj_onI)
  fix i j :: nat
  assume i: "i \<in> {0..<4 ^ k}" and j: "j \<in> {0..<4 ^ k}"
    and eq: "hpoint k (int i) = hpoint k (int j)"
  have "int i mod 4 ^ k = int j mod 4 ^ k"
    using hindex_hpoint[of k "int i"] hindex_hpoint[of k "int j"] eq by simp
  moreover have "int i < 4 ^ k" "int j < 4 ^ k"
    using i j by simp_all
  ultimately show "i = j" by simp
qed

lemma hpoint_image: "(\<lambda>i. hpoint k (int i)) ` {0..<4 ^ k} = {0..<2 ^ k} \<times> {0..<2 ^ k}"
proof (intro set_eqI iffI)
  fix p
  assume "p \<in> (\<lambda>i. hpoint k (int i)) ` {0..<4 ^ k}"
  then obtain i where "p = hpoint k (int i)" by blast
  then show "p \<in> {0..<2 ^ k} \<times> {0..<2 ^ k}"
    using hpoint_range[of k "int i"] by (simp add: mem_Times_iff)
next
  fix p :: "int \<times> int"
  assume p: "p \<in> {0..<2 ^ k} \<times> {0..<2 ^ k}"
  obtain x y where xy: "p = (x, y)" by (cases p)
  with p have r: "0 \<le> x" "x < 2 ^ k" "0 \<le> y" "y < 2 ^ k" by simp_all
  let ?i = "nat (hindex k x y)"
  have i: "int ?i = hindex k x y" using hindex_range[of k x y] by simp
  have "?i < 4 ^ k"
    using hindex_range[of k x y] by (simp add: nat_less_iff)
  moreover have "hpoint k (int ?i) = p"
    using r by (simp only: i hpoint_hindex xy take_bit_id_range)
  ultimately show "p \<in> (\<lambda>i. hpoint k (int i)) ` {0..<4 ^ k}"
    by (intro image_eqI[where x = ?i]) simp_all
qed

text \<open>
  C2: for every order \<open>\<ge> 0\<close>, \<open>generate_hilbert_points\<close> returns a sequence of
  exactly \<open>4^order\<close> points, the one at position \<open>i\<close> being what
  \<open>hilbert_index_to_point\<close> returns for \<open>i\<close>; the points are pairwise distinct
  and together they are the whole grid \<open>[0, 2^order) \<times> [0, 2^order)\<close>.
\<close>

theorem enumeration_bijection:
  assumes "0 \<le> order"
  shows "\<exists>ps. generate_hilbert_points order = Some (Inr ps)
           \<and> length ps = 4 ^ nat order
           \<and> (\<forall>i < 4 ^ nat order. hilbert_index_to_point order (int i) = Some (Inr (ps ! i)))
           \<and> distinct ps
           \<and> set ps = {0..<2 ^ nat order} \<times> {0..<2 ^ nat order}"
proof -
  let ?ps = "map (\<lambda>i. hpoint (nat order) (int i)) [0..<4 ^ nat order]"
  have "generate_hilbert_points order = Some (Inr ?ps)"
    using assms by (rule generate_hilbert_points_eq)
  moreover have "length ?ps = 4 ^ nat order" by simp
  moreover have "\<forall>i < 4 ^ nat order. hilbert_index_to_point order (int i) = Some (Inr (?ps ! i))"
    using assms by (simp add: hilbert_index_to_point_eq)
  moreover have "distinct ?ps"
    using hpoint_inj[of "nat order"] by (simp add: distinct_map)
  moreover have "set ?ps = {0..<2 ^ nat order} \<times> {0..<2 ^ nat order}"
    using hpoint_image[of "nat order"] by simp
  ultimately show ?thesis by blast
qed

theorem enumeration_bijection_witness:
  "(0::int) \<le> 1
   \<and> (\<exists>ps. generate_hilbert_points 1 = Some (Inr ps)
           \<and> length ps = 4 ^ nat 1
           \<and> (\<forall>i < 4 ^ nat 1. hilbert_index_to_point 1 (int i) = Some (Inr (ps ! i)))
           \<and> distinct ps
           \<and> set ps = {0..<2 ^ nat 1} \<times> {0..<2 ^ nat 1})"
  using enumeration_bijection [of 1] by simp

lemma chebyshev_of_manhattan: "manhattan p q = 1 \<Longrightarrow> chebyshev p q = 1"
  by (auto simp add: manhattan_def chebyshev_def max_def)

text \<open>
  C3: for every order \<open>\<ge> 1\<close> and every \<open>i\<close> in \<open>[0, 4^order - 2)\<close>, the points at
  the positions \<open>i\<close> and \<open>i + 1\<close> of \<open>generate_hilbert_points\<close> are at Chebyshev
  distance (the larger of the two absolute coordinate differences) exactly 1.
\<close>

theorem curve_adjacency:
  assumes "1 \<le> order"
  shows "\<exists>ps. generate_hilbert_points order = Some (Inr ps)
           \<and> (\<forall>i. int i < 4 ^ nat order - 2 \<longrightarrow> chebyshev (ps ! i) (ps ! (i + 1)) = 1)"
proof -
  let ?n = "nat order"
  let ?ps = "map (\<lambda>i. hpoint ?n (int i)) [0..<4 ^ ?n]"
  have gen: "generate_hilbert_points order = Some (Inr ?ps)"
    using assms by (intro generate_hilbert_points_eq) simp
  have "chebyshev (?ps ! i) (?ps ! (i + 1)) = 1" if i: "int i < 4 ^ ?n - 2" for i
  proof -
    from i have "int (i + 1) < 4 ^ ?n" by simp
    then have i1: "i + 1 < 4 ^ ?n"
      by (simp only: of_nat_less_numeral_power_cancel_iff)
    then have i0: "i < 4 ^ ?n" by simp
    have "manhattan (hpoint ?n (int i)) (hpoint ?n (int i + 1)) = 1"
      using i by (intro hpoint_adjacent) simp_all
    then have "chebyshev (hpoint ?n (int i)) (hpoint ?n (int (i + 1))) = 1"
      by (simp add: chebyshev_of_manhattan add.commute)
    then show ?thesis
      using i0 i1 by (simp only: nth_map_upt add_0 minus_nat.diff_0) 
  qed
  with gen show ?thesis by blast
qed

theorem curve_adjacency_witness:
  "(1::int) \<le> 1
   \<and> (\<exists>ps. generate_hilbert_points 1 = Some (Inr ps)
           \<and> (\<forall>i. int i < 4 ^ nat 1 - 2 \<longrightarrow> chebyshev (ps ! i) (ps ! (i + 1)) = 1))"
  using curve_adjacency [of 1] by simp

section \<open>The index matrix\<close>

lemma tuple_of_map: "tuple_of (map (\<lambda>i. Inr (f i)) xs) = Inr (map f xs)"
  by (induction xs) simp_all

lemma hilbert_index_matrix_eq:
  assumes "0 \<le> order"
  shows "hilbert_index_matrix order =
         Inr (map (\<lambda>x. map (\<lambda>y. hindex (nat order) (int x) (int y)) [0..<2 ^ nat order])
                  [0..<2 ^ nat order])"
proof -
  let ?n = "nat order"
  have sz: "py_pow2 order = Inr (PyInt (2 ^ ?n))"
    using assms by (simp add: py_pow2_def)
  have rg: "py_range (PyInt (2 ^ ?n)) = Inr (map int [0..<2 ^ ?n])"
    by (simp add: py_range_def nat_power_eq)
  have row: "tuple_of (map (\<lambda>y. point_to_hilbert_index x (int y) order) [0..<2 ^ ?n])
             = Inr (map (\<lambda>y. hindex ?n x (int y)) [0..<2 ^ ?n])" for x
    using assms by (simp add: point_to_hilbert_index_eq tuple_of_map)
  show ?thesis
    by (simp add: hilbert_index_matrix_def sz rg row tuple_of_map comp_def)
qed

lemma concat_rows_product:
  "concat (map (\<lambda>x. map (\<lambda>y. f x y) ys) xs) = map (\<lambda>(x, y). f x y) (List.product xs ys)"
  by (induction xs) simp_all

lemma hindex_inj:
  "inj_on (\<lambda>(x, y). hindex k (int x) (int y)) ({0..<2 ^ k} \<times> {0..<2 ^ k})"
proof (rule inj_onI, clarify)
  fix x y x' y' :: nat
  assume r: "x \<in> {0..<2 ^ k}" "y \<in> {0..<2 ^ k}" "x' \<in> {0..<2 ^ k}" "y' \<in> {0..<2 ^ k}"
    and eq: "hindex k (int x) (int y) = hindex k (int x') (int y')"
  have "hpoint k (hindex k (int x) (int y)) = hpoint k (hindex k (int x') (int y'))"
    by (simp only: eq)
  then have "take_bit k (int x) = take_bit k (int x')" "take_bit k (int y) = take_bit k (int y')"
    by (simp_all only: hpoint_hindex prod.inject)
  moreover have "take_bit k (int x) = int x" "take_bit k (int x') = int x'"
    "take_bit k (int y) = int y" "take_bit k (int y') = int y'"
    using r by (simp_all add: take_bit_id_range)
  ultimately show "x = x' \<and> y = y'" by simp
qed

lemma hindex_image:
  "(\<lambda>(x, y). hindex k (int x) (int y)) ` ({0..<2 ^ k} \<times> {0..<2 ^ k}) = {0..<4 ^ k}"
proof (intro set_eqI iffI)
  fix v
  assume "v \<in> (\<lambda>(x, y). hindex k (int x) (int y)) ` ({0..<2 ^ k} \<times> {0..<2 ^ k})"
  then obtain x y where "v = hindex k (int x) (int y)" by auto
  then show "v \<in> {0..<4 ^ k}"
    using hindex_range[of k "int x" "int y"] by simp
next
  fix v :: int
  assume v: "v \<in> {0..<4 ^ k}"
  obtain px py where p: "hpoint k v = (px, py)" by (cases "hpoint k v")
  from hpoint_range[of k v] p have r: "0 \<le> px" "px < 2 ^ k" "0 \<le> py" "py < 2 ^ k"
    by simp_all
  have "hindex k px py = v mod 4 ^ k"
    using hindex_hpoint[of k v] p by simp
  also have "\<dots> = v" using v by simp
  finally have "hindex k (int (nat px)) (int (nat py)) = v"
    using r by simp
  moreover have "nat px < 2 ^ k" "nat py < 2 ^ k"
    using r by (simp_all add: nat_less_iff)
  ultimately show "v \<in> (\<lambda>(x, y). hindex k (int x) (int y)) ` ({0..<2 ^ k} \<times> {0..<2 ^ k})"
    by (intro image_eqI[where x = "(nat px, nat py)"]) simp_all
qed

lemma matrix_cells:
  fixes k :: nat
  defines "m \<equiv> map (\<lambda>x. map (\<lambda>y. hindex k (int x) (int y)) [0..<2 ^ k]) [0..<2 ^ k]"
  shows "distinct (concat m)" and "set (concat m) = {0..<4 ^ k}"
proof -
  have c: "concat m = map (\<lambda>(x, y). hindex k (int x) (int y)) (List.product [0..<2 ^ k] [0..<2 ^ k])"
    unfolding m_def by (rule concat_rows_product)
  show "distinct (concat m)"
    unfolding c using hindex_inj[of k] by (simp add: distinct_map distinct_product)
  show "set (concat m) = {0..<4 ^ k}"
    unfolding c using hindex_image[of k] by simp
qed

text \<open>
  C4: for every order \<open>\<ge> 0\<close>, \<open>hilbert_index_matrix\<close> returns an array of
  \<open>2^order\<close> rows of \<open>2^order\<close> cells each, whose cell \<open>(x, y)\<close> holds what
  \<open>point_to_hilbert_index\<close> returns for \<open>(x, y)\<close>; the multiset of all its cells
  is \<open>{0, ..., 4^order - 1}\<close>, each value once.
\<close>

theorem index_matrix_permutation:
  assumes "0 \<le> order"
  shows "\<exists>m. hilbert_index_matrix order = Inr m
          \<and> length m = 2 ^ nat order
          \<and> (\<forall>row \<in> set m. length row = 2 ^ nat order)
          \<and> (\<forall>x < 2 ^ nat order. \<forall>y < 2 ^ nat order.
                point_to_hilbert_index (int x) (int y) order = Inr (m ! x ! y))
          \<and> mset (concat m) = mset_set {0..<4 ^ nat order}"
proof -
  let ?n = "nat order"
  let ?m = "map (\<lambda>x. map (\<lambda>y. hindex ?n (int x) (int y)) [0..<2 ^ ?n]) [0..<2 ^ ?n]"
  have "hilbert_index_matrix order = Inr ?m"
    using assms by (rule hilbert_index_matrix_eq)
  moreover have "length ?m = 2 ^ ?n" by simp
  moreover have "\<forall>row \<in> set ?m. length row = 2 ^ ?n" by auto
  moreover have "\<forall>x < 2 ^ ?n. \<forall>y < 2 ^ ?n.
      point_to_hilbert_index (int x) (int y) order = Inr (?m ! x ! y)"
    using assms by (simp add: point_to_hilbert_index_eq)
  moreover have "mset (concat ?m) = mset_set {0..<4 ^ ?n}"
    using matrix_cells[of ?n] by (metis mset_set_set)
  ultimately show ?thesis by blast
qed

theorem index_matrix_permutation_witness:
  "(0::int) \<le> 1
   \<and> (\<exists>m. hilbert_index_matrix 1 = Inr m
          \<and> length m = 2 ^ nat 1
          \<and> (\<forall>row \<in> set m. length row = 2 ^ nat 1)
          \<and> (\<forall>x < 2 ^ nat 1. \<forall>y < 2 ^ nat 1.
                point_to_hilbert_index (int x) (int y) 1 = Inr (m ! x ! y))
          \<and> mset (concat m) = mset_set {0..<4 ^ nat 1})"
  using index_matrix_permutation [of 1] by simp

text \<open>
  C6: with the axis convention that cell \<open>[x][y]\<close> of the matrix corresponds to
  \<open>HILBERT_3[y][x]\<close>, every cell of \<open>hilbert_index_matrix(3)\<close>, for \<open>x\<close> and \<open>y\<close>
  in \<open>[0, 8)\<close>, equals the corresponding entry of the reference table.
\<close>

theorem reference_table_transposed:
  "hilbert_index_matrix 3 = Inr (map (\<lambda>x. map (\<lambda>y. HILBERT_3 ! y ! x) [0..<8]) [0..<8])"
  by code_simp

section \<open>The grid inverter\<close>

lemma row_entries_sorted:
  "sorted_wrt (\<lambda>a b. scan_before (snd a) (snd b))
     (map (\<lambda>(y, val). (val, (int x, int y))) (enumerate m row))"
  by (induction row arbitrary: m) (auto simp add: in_set_enumerate_eq scan_before_def)

lemma row_entries_fst:
  "a \<in> set (map (\<lambda>(y, val). (val, (int x, int y))) (enumerate m row)) \<Longrightarrow> fst (snd a) = int x"
  by auto

lemma later_rows_fst:
  "b \<in> set (concat (map (\<lambda>(x, row). map (\<lambda>(y, val). (val, (int x, int y))) (enumerate 0 row))
                         (enumerate n grid))) \<Longrightarrow> int n \<le> fst (snd b)"
  by (auto simp add: in_set_enumerate_eq)

lemma grid_entries_sorted_from:
  "sorted_wrt (\<lambda>a b. scan_before (snd a) (snd b))
     (concat (map (\<lambda>(x, row). map (\<lambda>(y, val). (val, (int x, int y))) (enumerate 0 row))
                  (enumerate n grid)))"
proof (induction grid arbitrary: n)
  case Nil
  show ?case by simp
next
  case (Cons row grid)
  have cross: "scan_before (snd a) (snd b)"
    if "a \<in> set (map (\<lambda>(y, val). (val, (int n, int y))) (enumerate 0 row))"
      and "b \<in> set (concat (map (\<lambda>(x, row). map (\<lambda>(y, val). (val, (int x, int y))) (enumerate 0 row))
                         (enumerate (Suc n) grid)))" for a b
    using row_entries_fst[OF that(1)] later_rows_fst[OF that(2)]
    by (simp add: scan_before_def)
  show ?case
    using cross by (simp add: sorted_wrt_append row_entries_sorted Cons.IH del: set_map set_concat)
qed

lemma grid_entries_sorted:
  "sorted_wrt (\<lambda>a b. scan_before (snd a) (snd b)) (grid_entries grid)"
  unfolding grid_entries_def by (rule grid_entries_sorted_from)

lemma in_grid_entries:
  "(v, p) \<in> set (grid_entries grid) \<longleftrightarrow>
     (\<exists>x y. x < length grid \<and> y < length (grid ! x) \<and> grid ! x ! y = v \<and> p = (int x, int y))"
proof
  assume "(v, p) \<in> set (grid_entries grid)"
  then obtain x row y where xr: "(x, row) \<in> set (enumerate 0 grid)"
    and y: "(y, v) \<in> set (enumerate 0 row)" and p: "p = (int x, int y)"
    unfolding grid_entries_def by auto
  from xr have "x < length grid" "grid ! x = row"
    by (simp_all add: in_set_enumerate_eq)
  moreover from y have "y < length row" "row ! y = v"
    by (simp_all add: in_set_enumerate_eq)
  ultimately show "\<exists>x y. x < length grid \<and> y < length (grid ! x) \<and> grid ! x ! y = v \<and> p = (int x, int y)"
    using p by blast
next
  assume "\<exists>x y. x < length grid \<and> y < length (grid ! x) \<and> grid ! x ! y = v \<and> p = (int x, int y)"
  then obtain x y where x: "x < length grid" and y: "y < length (grid ! x)"
    and v: "grid ! x ! y = v" and p: "p = (int x, int y)" by blast
  have "(x, grid ! x) \<in> set (enumerate 0 grid)"
    using x by (simp add: in_set_enumerate_eq)
  moreover have "(y, v) \<in> set (enumerate 0 (grid ! x))"
    using y v by (simp add: in_set_enumerate_eq)
  then have "(v, p) \<in> set (map (\<lambda>(y, val). (val, (int x, int y))) (enumerate 0 (grid ! x)))"
    using p by force
  ultimately show "(v, p) \<in> set (grid_entries grid)"
    unfolding grid_entries_def by force
qed

lemma last_entry_wins:
  assumes "sorted_wrt (\<lambda>a b. R (snd a) (snd b)) es"
  shows "case foldl (\<lambda>d (val, pos). d(val \<mapsto> pos)) Map.empty es v of
           None \<Rightarrow> v \<notin> fst ` set es
         | Some p \<Rightarrow> (v, p) \<in> set es \<and> (\<forall>p'. (v, p') \<in> set es \<longrightarrow> p' = p \<or> R p' p)"
  using assms
proof (induction es rule: rev_induct)
  case Nil
  show ?case by simp
next
  case (snoc e es)
  obtain k q where e: "e = (k, q)" by (cases e)
  from snoc.prems have s: "sorted_wrt (\<lambda>a b. R (snd a) (snd b)) es"
    and lt: "\<forall>a \<in> set es. R (snd a) q"
    by (simp_all add: sorted_wrt_append e)
  show ?case
  proof (cases "v = k")
    case True
    with lt show ?thesis by (auto simp add: e)
  next
    case False
    with snoc.IH[OF s] show ?thesis
      by (auto simp add: e split: option.splits)
  qed
qed

lemma in_grid_iff: "v \<in> \<Union> (set ` set grid) \<longleftrightarrow> (\<exists>x y. x < length grid \<and> y < length (grid ! x) \<and> grid ! x ! y = v)"
proof
  assume "v \<in> \<Union> (set ` set grid)"
  then obtain row where "row \<in> set grid" "v \<in> set row" by blast
  then obtain x y where "x < length grid" "grid ! x = row" "y < length row" "row ! y = v"
    unfolding in_set_conv_nth by blast
  then show "\<exists>x y. x < length grid \<and> y < length (grid ! x) \<and> grid ! x ! y = v"
    by blast
next
  assume "\<exists>x y. x < length grid \<and> y < length (grid ! x) \<and> grid ! x ! y = v"
  then obtain x y where "x < length grid" "y < length (grid ! x)" "grid ! x ! y = v" by blast
  then have "grid ! x \<in> set grid" "v \<in> set (grid ! x)"
    using nth_mem by blast+
  then show "v \<in> \<Union> (set ` set grid)" by blast
qed

lemma grid_lookup:
  "case hilbert_curve_to_coordinates grid v of
     None \<Rightarrow> v \<notin> \<Union> (set ` set grid)
   | Some p \<Rightarrow>
       (\<exists>x y. p = (int x, int y) \<and> x < length grid \<and> y < length (grid ! x) \<and> grid ! x ! y = v
          \<and> (\<forall>x' y'. x' < length grid \<and> y' < length (grid ! x') \<and> grid ! x' ! y' = v
                \<longrightarrow> x' < x \<or> (x' = x \<and> y' \<le> y)))"
proof (cases "hilbert_curve_to_coordinates grid v")
  case None
  with last_entry_wins[where es = "grid_entries grid" and v = v and R = scan_before, OF grid_entries_sorted]
  have "v \<notin> fst ` set (grid_entries grid)"
    by (simp add: hilbert_curve_to_coordinates_def)
  then have "\<not> (\<exists>x y. x < length grid \<and> y < length (grid ! x) \<and> grid ! x ! y = v)"
    using in_grid_entries[of v _ grid] by force
  then have "v \<notin> \<Union> (set ` set grid)"
    using in_grid_iff[of v grid] by blast
  with None show ?thesis by simp
next
  case (Some p)
  with last_entry_wins[where es = "grid_entries grid" and v = v and R = scan_before, OF grid_entries_sorted]
  have mem: "(v, p) \<in> set (grid_entries grid)"
    and last: "\<forall>p'. (v, p') \<in> set (grid_entries grid) \<longrightarrow> p' = p \<or> scan_before p' p"
    by (simp_all add: hilbert_curve_to_coordinates_def)
  from mem obtain x y where xy: "x < length grid" "y < length (grid ! x)" "grid ! x ! y = v"
    and p: "p = (int x, int y)"
    unfolding in_grid_entries by blast
  have "x' < x \<or> (x' = x \<and> y' \<le> y)"
    if "x' < length grid \<and> y' < length (grid ! x') \<and> grid ! x' ! y' = v" for x' y'
  proof -
    from that have "(v, (int x', int y')) \<in> set (grid_entries grid)"
      unfolding in_grid_entries by blast
    with last have "(int x', int y') = p \<or> scan_before (int x', int y') p" by blast
    then show ?thesis by (auto simp add: p scan_before_def)
  qed
  with xy p Some show ?thesis by auto
qed

text \<open>
  C7: for every two-dimensional array, the keys of the mapping that
  \<open>hilbert_curve_to_coordinates\<close> returns are exactly the values that occur in the
  array, and each value is mapped to the position (row, column) of its last occurrence in
  a row-major scan: every other occurrence is in an earlier row, or in the same row at an
  earlier column.
\<close>

theorem grid_inverter_last_wins:
  "dom (hilbert_curve_to_coordinates grid) = \<Union> (set ` set grid)
   \<and> (\<forall>v \<in> \<Union> (set ` set grid).
        \<exists>x y. hilbert_curve_to_coordinates grid v = Some (int x, int y)
           \<and> x < length grid \<and> y < length (grid ! x) \<and> grid ! x ! y = v
           \<and> (\<forall>x' y'. x' < length grid \<and> y' < length (grid ! x') \<and> grid ! x' ! y' = v
                 \<longrightarrow> x' < x \<or> (x' = x \<and> y' \<le> y)))"
proof (intro conjI ballI)
  show "dom (hilbert_curve_to_coordinates grid) = \<Union> (set ` set grid)"
  proof (intro set_eqI iffI)
    fix v assume "v \<in> dom (hilbert_curve_to_coordinates grid)"
    then obtain p where "hilbert_curve_to_coordinates grid v = Some p" by blast
    with grid_lookup[where grid = "grid" and v = v] show "v \<in> \<Union> (set ` set grid)"
      unfolding in_grid_iff by auto
  next
    fix v assume "v \<in> \<Union> (set ` set grid)"
    with grid_lookup[where grid = "grid" and v = v] show "v \<in> dom (hilbert_curve_to_coordinates grid)"
      by (cases "hilbert_curve_to_coordinates grid v") auto
  qed
next
  fix v assume v: "v \<in> \<Union> (set ` set grid)"
  with grid_lookup[where grid = "grid" and v = v] obtain p where p: "hilbert_curve_to_coordinates grid v = Some p"
    by (cases "hilbert_curve_to_coordinates grid v") auto
  with grid_lookup[where grid = "grid" and v = v]
  show "\<exists>x y. hilbert_curve_to_coordinates grid v = Some (int x, int y)
           \<and> x < length grid \<and> y < length (grid ! x) \<and> grid ! x ! y = v
           \<and> (\<forall>x' y'. x' < length grid \<and> y' < length (grid ! x') \<and> grid ! x' ! y' = v
                 \<longrightarrow> x' < x \<or> (x' = x \<and> y' \<le> y))"
    by (simp only: option.case) blast
qed

theorem grid_inverter_last_wins_witness:
  "dom (hilbert_curve_to_coordinates [[5, 7], [7, 9 :: int]]) = \<Union> (set ` set [[5, 7], [7, 9]])
   \<and> (7 :: int) \<in> \<Union> (set ` set [[5, 7], [7, 9]])
   \<and> hilbert_curve_to_coordinates [[5, 7], [7, 9 :: int]] 7 = Some (1, 0)"
proof -
  let ?g = "[[5, 7], [7, 9 :: int]]"
  note t = grid_inverter_last_wins [of ?g]
  have m: "(7 :: int) \<in> \<Union> (set ` set ?g)" by simp
  have "hilbert_curve_to_coordinates ?g 7 = Some (1, 0)"
    by (simp add: hilbert_curve_to_coordinates_def grid_entries_def enumerate_eq_zip)
  with t m show ?thesis by blast
qed

text \<open>
  C9: for every order \<open>\<ge> 0\<close>, \<open>hilbert_curve_to_coordinates\<close> applied to the
  result of \<open>hilbert_index_matrix\<close> is a mapping defined exactly on
  \<open>{0, ..., 4^order - 1}\<close> that sends every index \<open>i\<close> of that range to the point
  that \<open>hilbert_index_to_point\<close> returns for \<open>i\<close>.
\<close>

theorem matrix_inversion:
  assumes "0 \<le> order"
  shows "\<exists>m. hilbert_index_matrix order = Inr m
          \<and> dom (hilbert_curve_to_coordinates m) = {0..<4 ^ nat order}
          \<and> (\<forall>i \<in> {0..<4 ^ nat order}.
                \<exists>p. hilbert_curve_to_coordinates m i = Some p
                   \<and> hilbert_index_to_point order i = Some (Inr p))"
proof -
  let ?n = "nat order"
  let ?m = "map (\<lambda>x. map (\<lambda>y. hindex ?n (int x) (int y)) [0..<2 ^ ?n]) [0..<2 ^ ?n]"
  have m: "hilbert_index_matrix order = Inr ?m"
    using assms by (rule hilbert_index_matrix_eq)
  have cells: "\<Union> (set ` set ?m) = {0..<4 ^ ?n}"
    using matrix_cells(2)[of ?n] by simp
  have look: "\<exists>p. hilbert_curve_to_coordinates ?m i = Some p \<and> hilbert_index_to_point order i = Some (Inr p)"
    if i: "i \<in> {0..<4 ^ ?n}" for i
  proof (cases "hilbert_curve_to_coordinates ?m i")
    case None
    with grid_lookup[where grid = "?m" and v = i] have "i \<notin> \<Union> (set ` set ?m)"
      by simp
    with i cells show ?thesis by blast
  next
    case (Some p)
    with grid_lookup[where grid = "?m" and v = i] obtain x y where p: "p = (int x, int y)"
      and x: "x < length ?m" and y: "y < length (?m ! x)" and v: "?m ! x ! y = i"
      by auto
    from x have x': "x < 2 ^ ?n" by simp
    with y have y': "y < 2 ^ ?n" by simp
    from v x' y' have "hindex ?n (int x) (int y) = i" by simp
    then have "hpoint ?n i = (take_bit ?n (int x), take_bit ?n (int y))"
      using hpoint_hindex[of ?n "int x" "int y"] by simp
    also have "\<dots> = (int x, int y)"
      using x' y' by (simp add: take_bit_id_range)
    finally show ?thesis
      using assms Some p by (simp add: hilbert_index_to_point_eq)
  qed
  have "dom (hilbert_curve_to_coordinates ?m) = {0..<4 ^ ?n}"
  proof (intro set_eqI iffI)
    fix v assume "v \<in> dom (hilbert_curve_to_coordinates ?m)"
    then obtain p where "hilbert_curve_to_coordinates ?m v = Some p" by blast
    with grid_lookup[where grid = "?m" and v = v] have "v \<in> \<Union> (set ` set ?m)"
      unfolding in_grid_iff by auto
    then show "v \<in> {0..<4 ^ ?n}" by (simp only: cells)
  next
    fix v :: int assume "v \<in> {0..<4 ^ ?n}"
    from look[OF this] show "v \<in> dom (hilbert_curve_to_coordinates ?m)" by blast
  qed
  with m look show ?thesis by blast
qed

theorem matrix_inversion_witness:
  "(0::int) \<le> 1
   \<and> (\<exists>m. hilbert_index_matrix 1 = Inr m
          \<and> dom (hilbert_curve_to_coordinates m) = {0..<4 ^ nat 1}
          \<and> (\<forall>i \<in> {0..<4 ^ nat 1}.
                \<exists>p. hilbert_curve_to_coordinates m i = Some p
                   \<and> hilbert_index_to_point 1 i = Some (Inr p)))"
  using matrix_inversion [of 1] by simp

end
